theory Spec2Isabelle
  imports Complex_Main "HOL-Library.Word"
begin

section \<open>JavaScript strings\<close>

text \<open>
  A JavaScript string is a sequence of 16-bit UTF-16 code units; \<open>length\<close>, indexing,
  \<open>substring\<close> and regular expressions without the \<open>u\<close> flag all work on code units.
  ASCII literals of the source are written \<open>js ''...''\<close>.
\<close>

type_synonym jschar = "16 word"
type_synonym jsstring = "jschar list"

definition js :: "string \<Rightarrow> jsstring" where
  "js s = map of_char s"

text \<open>The character classes of the regular expressions in \<open>src/js/reader.js\<close>.\<close>

definition isDigit :: "jschar \<Rightarrow> bool" where
  \<comment> \<open>\<open>\d\<close>: the ASCII digits\<close>
  "isDigit c = (0x30 \<le> c \<and> c \<le> 0x39)"

definition isWordChar :: "jschar \<Rightarrow> bool" where
  \<comment> \<open>\<open>\w\<close>: \<open>[A-Za-z0-9_]\<close>\<close>
  "isWordChar c = ((0x41 \<le> c \<and> c \<le> 0x5A) \<or> (0x61 \<le> c \<and> c \<le> 0x7A) \<or> isDigit c \<or> c = 0x5F)"

definition isSpace :: "jschar \<Rightarrow> bool" where
  \<comment> \<open>\<open>\s\<close>: ECMAScript WhiteSpace and LineTerminator; \<open>trim\<close> removes the same set\<close>
  "isSpace c = ((0x09 \<le> c \<and> c \<le> 0x0D) \<or> c = 0x20 \<or> c = 0xA0 \<or> c = 0x1680
      \<or> (0x2000 \<le> c \<and> c \<le> 0x200A) \<or> c = 0x2028 \<or> c = 0x2029 \<or> c = 0x202F
      \<or> c = 0x205F \<or> c = 0x3000 \<or> c = 0xFEFF)"

definition isClosing :: "jschar \<Rightarrow> bool" where
  \<comment> \<open>the class \<open>['"""'\)\]]\<close> of \<open>getWordDuration\<close>: apostrophe, double quote, \<open>)\<close> and \<open>]\<close>\<close>
  "isClosing c = (c = 0x27 \<or> c = 0x22 \<or> c = 0x29 \<or> c = 0x5D)"

text \<open>
  \<open>s.replace(re, '')\<close> with a global regular expression: scanning from the left, a match
  at the current position is dropped and the scan resumes behind it; otherwise the code
  unit is kept and the scan moves on by one. The regular expression is given by its
  matcher, which returns the input left behind a match at the start of its argument.
\<close>

function replace_g :: "(jsstring \<Rightarrow> jsstring option) \<Rightarrow> jsstring \<Rightarrow> jsstring" where
  "replace_g m [] = []"
| "replace_g m (c # cs) =
     (case m (c # cs) of
        None \<Rightarrow> c # replace_g m cs
      | Some rest \<Rightarrow>
          if length rest < length (c # cs) then replace_g m rest else c # replace_g m cs)"
  by pat_completeness auto
termination
  by (relation "measure (\<lambda>(m, s). length s)") auto

definition m_nonword :: "jsstring \<Rightarrow> jsstring option" where
  \<comment> \<open>\<open>/[^\w]/\<close>\<close>
  "m_nonword s = (case s of [] \<Rightarrow> None | c # r \<Rightarrow> if isWordChar c then None else Some r)"

definition substring :: "jsstring \<Rightarrow> nat \<Rightarrow> nat \<Rightarrow> jsstring" where
  \<comment> \<open>\<open>s.substring(a, b)\<close>: both ends clamped to the length, swapped when \<open>a > b\<close>\<close>
  "substring s a b =
     (let a' = min a (length s); b' = min b (length s)
      in take (max a' b' - min a' b') (drop (min a' b') s))"

definition substring_from :: "jsstring \<Rightarrow> nat \<Rightarrow> jsstring" where
  \<comment> \<open>\<open>s.substring(a)\<close>\<close>
  "substring_from s a = drop (min a (length s)) s"

definition charAtOrEmpty :: "jsstring \<Rightarrow> nat \<Rightarrow> jsstring" where
  \<comment> \<open>\<open>s[i] || ''\<close>: a one-unit string is truthy, \<open>undefined\<close> out of range is not\<close>
  "charAtOrEmpty s i = (if i < length s then [s ! i] else [])"

section \<open>Tokenizer\<close>

definition after_prefix :: "jsstring \<Rightarrow> jsstring \<Rightarrow> jsstring option" where
  \<comment> \<open>a literal of a regular expression: the input behind it, when the input starts with it\<close>
  "after_prefix p s = (if take (length p) s = p then Some (drop (length p) s) else None)"

definition m_citation :: "jsstring \<Rightarrow> jsstring option" where
  \<comment> \<open>\<open>/\[\d+\]/\<close>: the greedy run of digits is followed by \<open>]\<close> or there is no match (a
      shorter run of digits is followed by a digit)\<close>
  "m_citation s =
     (case s of
        [] \<Rightarrow> None
      | c # t \<Rightarrow>
          if c = 0x5B \<and> takeWhile isDigit t \<noteq> []
          then (case dropWhile isDigit t of
                  [] \<Rightarrow> None
                | d # rest \<Rightarrow> if d = 0x5D then Some rest else None)
          else None)"

definition m_nonspaces :: "jsstring \<Rightarrow> jsstring option" where
  \<comment> \<open>\<open>[^\s]+\<close> at the end of a regular expression: the longest run, at least one unit\<close>
  "m_nonspaces s =
     (if takeWhile (\<lambda>c. \<not> isSpace c) s = [] then None
      else Some (dropWhile (\<lambda>c. \<not> isSpace c) s))"

definition m_http :: "jsstring \<Rightarrow> jsstring option" where
  \<comment> \<open>\<open>/https?:\/\/[^\s]+/\<close>: when the optional \<open>s\<close> is there and \<open>://\<close> does not follow
      it, matching without it fails too, as \<open>://\<close> would have to start at that \<open>s\<close>\<close>
  "m_http s =
     (case after_prefix (js ''http'') s of
        None \<Rightarrow> None
      | Some t \<Rightarrow>
          (case after_prefix (js ''://'') (case t of [] \<Rightarrow> t | c # r \<Rightarrow> if c = 0x73 then r else t) of
             None \<Rightarrow> None
           | Some u \<Rightarrow> m_nonspaces u))"

definition m_www :: "jsstring \<Rightarrow> jsstring option" where
  \<comment> \<open>\<open>/www\.[^\s]+/\<close>\<close>
  "m_www s = (case after_prefix (js ''www.'') s of None \<Rightarrow> None | Some t \<Rightarrow> m_nonspaces t)"

definition removeCitations :: "jsstring \<Rightarrow> jsstring" where
  \<comment> \<open>\<open>src/js/reader.js\<close>, lines 24-29\<close>
  "removeCitations text = replace_g m_www (replace_g m_http (replace_g m_citation text))"

definition trim :: "jsstring \<Rightarrow> jsstring" where
  "trim s = rev (dropWhile isSpace (rev (dropWhile isSpace s)))"

text \<open>
  \<open>s.split(/\s+/)\<close>: the pieces between the maximal runs of white space; a string without
  white space, the empty string too, is a single piece.
\<close>

function split_ws :: "jsstring \<Rightarrow> jsstring list" where
  "split_ws s =
     (case dropWhile (\<lambda>c. \<not> isSpace c) s of
        [] \<Rightarrow> [s]
      | c # r \<Rightarrow> takeWhile (\<lambda>c. \<not> isSpace c) s # split_ws (dropWhile isSpace r))"
  by pat_completeness auto
termination
proof (relation "measure length", simp)
  fix s :: jsstring and c r
  assume "dropWhile (\<lambda>c. \<not> isSpace c) s = c # r"
  then have "length s \<ge> Suc (length r)"
    using length_dropWhile_le [of "\<lambda>c. \<not> isSpace c" s] by simp
  moreover have "length (dropWhile isSpace r) \<le> length r"
    by (rule length_dropWhile_le)
  ultimately show "(dropWhile isSpace r, s) \<in> measure length" by simp
qed

declare split_ws.simps [simp del]

definition parseText :: "jsstring \<Rightarrow> jsstring list" where
  \<comment> \<open>\<open>src/js/reader.js\<close>, lines 36-41\<close>
  "parseText text = filter (\<lambda>word. length word > 0) (split_ws (trim (removeCitations text)))"

definition parseText_part0 :: "jsstring \<Rightarrow> jsstring list" where
  \<comment> \<open>the earlier copy, \<open>src/unnamed/part_000\<close>, lines 24-29: no stripping\<close>
  "parseText_part0 text = filter (\<lambda>word. length word > 0) (split_ws (trim text))"

definition maximal_run :: "jsstring \<Rightarrow> jsstring \<Rightarrow> bool" where
  \<comment> \<open>\<open>tok\<close> is a maximal run of non-white-space code units of \<open>s\<close>\<close>
  "maximal_run s tok =
     (tok \<noteq> [] \<and> list_all (\<lambda>c. \<not> isSpace c) tok \<and>
      (\<exists>pre post. s = pre @ tok @ post \<and> (pre = [] \<or> isSpace (last pre))
         \<and> (post = [] \<or> isSpace (hd post))))"

section \<open>Highlight computation\<close>

definition stripPunctuation :: "jsstring \<Rightarrow> jsstring" where
  "stripPunctuation word = replace_g m_nonword word"

definition getORPIndex :: "jsstring \<Rightarrow> nat" where
  \<comment> \<open>\<open>src/js/reader.js\<close>, lines 79-90\<close>
  "getORPIndex word =
     (let cleanWord = replace_g m_nonword word;
          len = length cleanWord
      in if len \<le> 1 then 0
         else if len \<le> 5 then 1
         else if len \<le> 9 then 2
         else if len \<le> 13 then 3
         else 4)"

definition getORPIndex_part0 :: "jsstring \<Rightarrow> nat" where
  \<comment> \<open>the earlier copy of the engine, \<open>src/unnamed/part_000\<close>, lines 66-76\<close>
  "getORPIndex_part0 word =
     (let cleanWord = replace_g m_nonword word;
          len = length cleanWord
      in if len \<le> 1 then 0
         else if len \<le> 3 then 1
         else (len - 1) div 2)"

record wordSplit =
  before :: jsstring
  highlight :: jsstring
  after :: jsstring

definition splitWord :: "jsstring \<Rightarrow> wordSplit" where
  \<comment> \<open>\<open>src/js/reader.js\<close>, lines 116-125\<close>
  "splitWord word =
     (let cleanWord = stripPunctuation word;
          highlightIndex = getORPIndex word
      in \<lparr> before = substring cleanWord 0 highlightIndex,
           highlight = charAtOrEmpty cleanWord highlightIndex,
           after = substring_from cleanWord (highlightIndex + 1) \<rparr>)"


definition isAlphanumeric_spec :: "jschar \<Rightarrow> bool" where
  \<comment> \<open>the specification's wording, "letter/digit characters", read on ASCII\<close>
  "isAlphanumeric_spec c = ((0x41 \<le> c \<and> c \<le> 0x5A) \<or> (0x61 \<le> c \<and> c \<le> 0x7A) \<or> (0x30 \<le> c \<and> c \<le> 0x39))"

section \<open>Duration model\<close>

text \<open>
  JavaScript numbers are IEEE doubles; durations are modelled as exact rationals. The
  model is meant for a positive rate: for \<open>wpm = 0\<close> the source yields \<open>Infinity\<close>
  where HOL's division yields 0.
\<close>

text \<open>
  \<open>s.replace(re, '')\<close> with a regular expression that is not global: only the leftmost
  match is dropped.
\<close>

fun replace_first :: "(jsstring \<Rightarrow> jsstring option) \<Rightarrow> jsstring \<Rightarrow> jsstring" where
  "replace_first m [] = []"
| "replace_first m (c # cs) =
     (case m (c # cs) of None \<Rightarrow> c # replace_first m cs | Some rest \<Rightarrow> rest)"

definition m_closing_end :: "jsstring \<Rightarrow> jsstring option" where
  \<comment> \<open>\<open>/['"""'\)\]]+$/\<close>: a non-empty run of the class that reaches the end of the string\<close>
  "m_closing_end s = (if s \<noteq> [] \<and> dropWhile isClosing s = [] then Some [] else None)"

definition punctuationMultipliers :: "(jsstring \<times> rat) list" where
  \<comment> \<open>the object literal of lines 141-150; the seventh key is the three code units
      U+00E2 U+20AC U+201D that the source file holds there\<close>
  "punctuationMultipliers =
     [(js ''.'', 2), (js ''!'', 2), (js ''?'', 2),
      (js '','', 3 / 2), (js '';'', 3 / 2), (js '':'', 3 / 2),
      ([0xE2, 0x20AC, 0x201D], 13 / 10),
      (js ''-'', 6 / 5)]"

definition getWordDuration :: "jsstring \<Rightarrow> rat \<Rightarrow> rat" where
  \<comment> \<open>\<open>src/js/reader.js\<close>, lines 133-155; \<open>lastChar\<close> is \<open>undefined\<close> (None) for an empty
      string, and a missing property makes \<open>|| 1.0\<close> take over\<close>
  "getWordDuration word wpm =
     (let baseDelay = 60000 / wpm;
          cleanWord = replace_first m_closing_end word;
          lastChar = (if cleanWord = [] then None else Some [last cleanWord]);
          multiplier =
            (case lastChar of
               None \<Rightarrow> 1
             | Some k \<Rightarrow> (case map_of punctuationMultipliers k of None \<Rightarrow> 1 | Some v \<Rightarrow> v))
      in baseDelay * multiplier)"

section \<open>Progress reporting\<close>

fun digits :: "nat \<Rightarrow> jsstring" where
  "digits n = (if n < 10 then [of_nat (48 + n)] else digits (n div 10) @ [of_nat (48 + n mod 10)])"

declare digits.simps [simp del]

definition toString :: "int \<Rightarrow> jsstring" where
  \<comment> \<open>\<open>Number.prototype.toString\<close> on an integer below \<open>1e21\<close>\<close>
  "toString i = (if i < 0 then js ''-'' @ digits (nat (- i)) else digits (nat i))"

definition padStart :: "jsstring \<Rightarrow> nat \<Rightarrow> jschar \<Rightarrow> jsstring" where
  "padStart s n c = replicate (n - length s) c @ s"

definition js_rem :: "rat \<Rightarrow> rat \<Rightarrow> rat" where
  \<comment> \<open>the \<open>%\<close> operator: the remainder takes the sign of the dividend\<close>
  "js_rem x y = x - y * of_int (if x / y < 0 then \<lceil>x / y\<rceil> else \<lfloor>x / y\<rfloor>)"

definition Math_round :: "rat \<Rightarrow> int" where
  \<comment> \<open>\<open>Math.round\<close>: to the nearest integer, a tie towards \<open>+Infinity\<close>\<close>
  "Math_round x = \<lfloor>x + 1 / 2\<rfloor>"

definition formatTime :: "rat \<Rightarrow> jsstring" where
  \<comment> \<open>\<open>src/js/reader.js\<close>, lines 181-185\<close>
  "formatTime seconds =
     (let mins = \<lfloor>seconds / 60\<rfloor>;
          secs = Math_round (js_rem seconds 60)
      in toString mins @ js '':'' @ padStart (toString secs) 2 0x30)"

section \<open>Scheduler and state machine\<close>

text \<open>
  The engine is the object \<open>Reader\<close> of \<open>src/js/reader.js\<close>. Its fields are the first
  five fields of the record; a hook field says whether the application has assigned the
  hook. The record also carries what the host keeps for the engine: the timeouts that
  are scheduled and not yet fired or cleared (identifier and delay), the identifier the
  next \<open>setTimeout\<close> returns (a positive integer, so a stored identifier is truthy), and
  the calls made to the hooks so far. A hook is an observer: it does not call back into
  the engine.
\<close>

record progress =
  percentage :: int
  currentWord :: int
  totalWords :: nat
  remainingTime :: jsstring

datatype event = WordChange wordSplit | Progress progress | Complete

record reader =
  words :: "jsstring list"
  currentIndex :: int
  isPlaying :: bool
  timer :: "nat option"
  expectedTime :: rat
  onWordChange :: bool
  onProgress :: bool
  onComplete :: bool
  getWPM :: bool
  pending :: "(nat \<times> rat) list"
  nextId :: nat
  events :: "event list"

text \<open>What a scheduled step reads from outside: the clock and the rate the hook returns.\<close>

record env =
  now :: rat
  rate :: rat

datatype error = TypeError

definition Reader :: reader where
  \<comment> \<open>the object literal, lines 6-17\<close>
  "Reader = \<lparr> words = [], currentIndex = 0, isPlaying = False, timer = None, expectedTime = 0,
     onWordChange = False, onProgress = False, onComplete = False, getWPM = False,
     pending = [], nextId = 1, events = [] \<rparr>"

definition wordAt :: "jsstring list \<Rightarrow> int \<Rightarrow> jsstring option" where
  \<comment> \<open>\<open>this.words[i]\<close>: \<open>undefined\<close> (None) outside the array\<close>
  "wordAt ws i = (if 0 \<le> i \<and> i < int (length ws) then Some (ws ! nat i) else None)"

definition emit :: "event \<Rightarrow> reader \<Rightarrow> reader" where
  "emit e s = s\<lparr>events := events s @ [e]\<rparr>"

definition getProgress :: "rat \<Rightarrow> reader \<Rightarrow> progress" where
  \<comment> \<open>lines 162-174\<close>
  "getProgress wpm s =
     (let total = length (words s);
          pct = (if total > 0 then (of_int (currentIndex s) / of_nat total) * 100 else 0);
          remainingWords = int total - currentIndex s;
          remainingSeconds = (of_int remainingWords / wpm) * 60
      in \<lparr> percentage = Math_round pct,
           currentWord = currentIndex s + 1,
           totalWords = total,
           remainingTime = formatTime remainingSeconds \<rparr>)"

definition setTimeout :: "rat \<Rightarrow> reader \<Rightarrow> reader" where
  \<comment> \<open>\<open>this.timer = setTimeout(..., delay)\<close>\<close>
  "setTimeout delay s =
     s\<lparr>pending := pending s @ [(nextId s, delay)], timer := Some (nextId s),
       nextId := Suc (nextId s)\<rparr>"

definition scheduleNext :: "env \<Rightarrow> reader \<Rightarrow> error + reader" where
  \<comment> \<open>lines 205-240; \<open>getWordDuration(undefined, wpm)\<close> throws a TypeError\<close>
  "scheduleNext e s =
     (if \<not> isPlaying s \<or> currentIndex s \<ge> int (length (words s)) then
        (let s1 = s\<lparr>isPlaying := False\<rparr>
         in Inr (if currentIndex s1 \<ge> int (length (words s1)) \<and> onComplete s1
                 then emit Complete s1 else s1))
      else
        (let wpm = (if getWPM s then rate e else 300)
         in case wordAt (words s) (currentIndex s) of
              None \<Rightarrow> Inl TypeError
            | Some word \<Rightarrow>
                (let duration = getWordDuration word wpm;
                     drift = now e - expectedTime s;
                     delay = max 0 (duration - drift);
                     s1 = s\<lparr>expectedTime := expectedTime s + duration\<rparr>;
                     s2 = (if onWordChange s1 then emit (WordChange (splitWord word)) s1 else s1);
                     s3 = (if onProgress s2 then emit (Progress (getProgress wpm s2)) s2 else s2)
                 in Inr (setTimeout delay s3))))"

definition play :: "rat \<Rightarrow> env \<Rightarrow> reader \<Rightarrow> error + reader" where
  \<comment> \<open>lines 190-199; the first argument is the clock read by \<open>play\<close> itself\<close>
  "play t0 e s =
     (if isPlaying s then Inr s
      else
        (let s1 = (if currentIndex s \<ge> int (length (words s)) then s\<lparr>currentIndex := 0\<rparr> else s);
             s2 = s1\<lparr>isPlaying := True, expectedTime := t0\<rparr>
         in scheduleNext e s2))"

definition timerFired :: "nat \<Rightarrow> env \<Rightarrow> reader \<Rightarrow> error + reader" where
  \<comment> \<open>the host runs the callback of lines 236-239 for the timeout \<open>t\<close>\<close>
  "timerFired t e s =
     scheduleNext e (s\<lparr>pending := filter (\<lambda>p. fst p \<noteq> t) (pending s),
                        currentIndex := currentIndex s + 1\<rparr>)"

definition pause :: "reader \<Rightarrow> reader" where
  \<comment> \<open>lines 245-251\<close>
  "pause s =
     (let s1 = s\<lparr>isPlaying := False\<rparr>
      in case timer s1 of
           None \<Rightarrow> s1
         | Some t \<Rightarrow> s1\<lparr>pending := filter (\<lambda>p. fst p \<noteq> t) (pending s1), timer := None\<rparr>)"

definition stop :: "reader \<Rightarrow> reader" where
  "stop s = (pause s)\<lparr>currentIndex := 0\<rparr>"

definition init :: "jsstring \<Rightarrow> reader \<Rightarrow> reader" where
  \<comment> \<open>lines 47-52\<close>
  "init text s = stop (s\<lparr>words := parseText text, currentIndex := 0, isPlaying := False\<rparr>)"

definition restart :: "reader \<Rightarrow> reader" where
  \<comment> \<open>lines 264-274\<close>
  "restart s =
     (let s1 = (pause s)\<lparr>currentIndex := 0\<rparr>;
          s2 = (if length (words s1) > 0 \<and> onWordChange s1
                then emit (WordChange (splitWord (words s1 ! 0))) s1 else s1)
      in if onProgress s2 then emit (Progress (getProgress 300 s2)) s2 else s2)"

definition goToEnd :: "reader \<Rightarrow> reader" where
  \<comment> \<open>lines 279-289\<close>
  "goToEnd s =
     (let s0 = pause s;
          s1 = s0\<lparr>currentIndex := max 0 (int (length (words s0)) - 1)\<rparr>;
          s2 = (if length (words s1) > 0 \<and> onWordChange s1
                then emit (WordChange (splitWord (words s1 ! nat (currentIndex s1)))) s1 else s1)
      in if onProgress s2 then emit (Progress (getProgress 300 s2)) s2 else s2)"

definition displayWordAt :: "int \<Rightarrow> rat \<Rightarrow> reader \<Rightarrow> reader" where
  \<comment> \<open>lines 296-306, the engine's \<open>seekTo\<close>\<close>
  "displayWordAt index wpm s =
     (if index \<ge> 0 \<and> index < int (length (words s)) then
        (let s1 = s\<lparr>currentIndex := index\<rparr>;
             s2 = (if onWordChange s1
                   then emit (WordChange (splitWord (words s1 ! nat index))) s1 else s1)
         in if onProgress s2 then emit (Progress (getProgress wpm s2)) s2 else s2)
      else s)"

text \<open>
  The operations a controller and the host can perform on the engine. A timeout can fire
  only while the host holds it; the application may assign the hooks at any time.
\<close>

datatype action =
    Init jsstring
  | Play rat env
  | TimerFired nat env
  | Pause
  | Stop
  | Restart
  | GoToEnd
  | SeekTo int rat
  | SetHooks bool bool bool bool

fun perform :: "action \<Rightarrow> reader \<Rightarrow> error + reader" where
  "perform (Init text) s = Inr (init text s)"
| "perform (Play t0 e) s = play t0 e s"
| "perform (TimerFired t e) s = timerFired t e s"
| "perform Pause s = Inr (pause s)"
| "perform Stop s = Inr (stop s)"
| "perform Restart s = Inr (restart s)"
| "perform GoToEnd s = Inr (goToEnd s)"
| "perform (SeekTo i wpm) s = Inr (displayWordAt i wpm s)"
| "perform (SetHooks w p c g) s =
     Inr (s\<lparr>onWordChange := w, onProgress := p, onComplete := c, getWPM := g\<rparr>)"

fun enabled :: "action \<Rightarrow> reader \<Rightarrow> bool" where
  "enabled (TimerFired t e) s = (t \<in> fst ` set (pending s))"
| "enabled a s = True"

inductive reachable :: "reader \<Rightarrow> bool" where
  start: "reachable Reader"
| step: "reachable s \<Longrightarrow> enabled a s \<Longrightarrow> perform a s = Inr s' \<Longrightarrow> reachable s'"

text \<open>
  Uninterrupted playing: time passes and the host fires the scheduled timeout, once for
  each element of the list; with nothing scheduled, nothing happens.
\<close>

fun playback :: "env list \<Rightarrow> reader \<Rightarrow> error + reader" where
  "playback [] s = Inr s"
| "playback (e # es) s =
     (case pending s of
        [] \<Rightarrow> Inr s
      | p # ps \<Rightarrow> (case timerFired (fst p) e s of Inl x \<Rightarrow> Inl x | Inr s' \<Rightarrow> playback es s'))"

definition completions :: "reader \<Rightarrow> nat" where
  \<comment> \<open>how often the playback-complete hook has been called\<close>
  "completions s = length (filter (\<lambda>ev. ev = Complete) (events s))"

definition uninterrupted :: "rat \<Rightarrow> env \<Rightarrow> env list \<Rightarrow> reader \<Rightarrow> error + reader" where
  \<comment> \<open>\<open>play()\<close>, then the scheduled steps with nothing else in between\<close>
  "uninterrupted t0 e es s = (case play t0 e s of Inl x \<Rightarrow> Inl x | Inr s1 \<Rightarrow> playback es s1)"

definition play_start :: "reader \<Rightarrow> int" where
  \<comment> \<open>the index \<open>play\<close> starts from: it wraps to 0 at the terminal position\<close>
  "play_start s = (if currentIndex s \<ge> int (length (words s)) then 0 else currentIndex s)"

definition isTimerFired :: "action \<Rightarrow> bool" where
  "isTimerFired a = (case a of TimerFired t e \<Rightarrow> True | _ \<Rightarrow> False)"

text \<open>
  Sample sessions: in \<open>demo\<close> the application has assigned all four hooks and loaded
  a six-word text, \<open>five\<close> holds a five-word text; \<open>sample_text\<close> exercises the stripping
  of the tokenizer.
\<close>

definition demo :: reader where
  "demo = init (js ''Hello, world. This is a test'')
     (Reader\<lparr>onWordChange := True, onProgress := True, onComplete := True, getWPM := True\<rparr>)"

definition five :: reader where
  "five = init (js ''one two three four five'') Reader"

definition sample_text :: jsstring where
  "sample_text = js ''  see [12] http://a.b/c and https://d.e or www.f.g now[3]. ''"

definition engine_inv :: "reader \<Rightarrow> bool" where
  "engine_inv s =
     (0 \<le> currentIndex s \<and> currentIndex s \<le> int (length (words s)) \<and>
      (if isPlaying s
       then currentIndex s < int (length (words s)) \<and>
            map (\<lambda>p. Some (fst p)) (pending s) = [timer s]
       else pending s = []))"

section \<open>Properties of the highlight computation\<close>

lemma replace_g_nonword: "replace_g m_nonword s = filter isWordChar s"
  by (induction s) (simp_all add: m_nonword_def)

lemma stripPunctuation_filter: "stripPunctuation w = filter isWordChar w"
  by (simp add: stripPunctuation_def replace_g_nonword)

section \<open>Properties of the tokenizer\<close>

lemma split_ws_Nil: "dropWhile (\<lambda>c. \<not> isSpace c) s = [] \<Longrightarrow> split_ws s = [s]"
  by (subst split_ws.simps) (simp only: list.case)

lemma split_ws_Cons:
  "dropWhile (\<lambda>c. \<not> isSpace c) s = d # r \<Longrightarrow>
   split_ws s = takeWhile (\<lambda>c. \<not> isSpace c) s # split_ws (dropWhile isSpace r)"
  by (subst split_ws.simps) (simp only: list.case)

lemma split_ws_no_space: "p \<in> set (split_ws s) \<Longrightarrow> c \<in> set p \<Longrightarrow> \<not> isSpace c"
proof (induction s arbitrary: p rule: split_ws.induct)
  case (1 s)
  show ?case
  proof (cases "dropWhile (\<lambda>c. \<not> isSpace c) s")
    case Nil
    then have "p = s" using "1.prems"(1) by (simp only: split_ws_Nil) simp
    moreover from Nil have "\<forall>x\<in>set s. \<not> isSpace x" by simp
    ultimately show ?thesis using "1.prems"(2) by blast
  next
    case (Cons d r)
    then have "p = takeWhile (\<lambda>c. \<not> isSpace c) s \<or> p \<in> set (split_ws (dropWhile isSpace r))"
      using "1.prems"(1) by (simp only: split_ws_Cons [OF Cons]) simp
    then show ?thesis
    proof
      assume "p = takeWhile (\<lambda>c. \<not> isSpace c) s"
      then show ?thesis using "1.prems"(2) by (auto dest: set_takeWhileD)
    next
      assume "p \<in> set (split_ws (dropWhile isSpace r))"
      then show ?thesis using "1.IH" [OF Cons] "1.prems"(2) by blast
    qed
  qed
qed

lemma concat_split_ws: "concat (split_ws s) = filter (\<lambda>c. \<not> isSpace c) s"
proof (induction s rule: split_ws.induct)
  case (1 s)
  show ?case
  proof (cases "dropWhile (\<lambda>c. \<not> isSpace c) s")
    case Nil
    then have "\<forall>x\<in>set s. \<not> isSpace x" by simp
    then have "filter (\<lambda>c. \<not> isSpace c) s = s" by (simp add: filter_id_conv)
    then show ?thesis by (simp only: split_ws_Nil [OF Nil]) simp
  next
    case (Cons d r)
    have d: "isSpace d" using Cons hd_dropWhile [of "\<lambda>c. \<not> isSpace c" s] by auto
    have s: "s = takeWhile (\<lambda>c. \<not> isSpace c) s @ d # r"
      using Cons takeWhile_dropWhile_id [of "\<lambda>c. \<not> isSpace c" s] by simp
    have r: "r = takeWhile isSpace r @ dropWhile isSpace r" by simp
    have f1: "filter (\<lambda>c. \<not> isSpace c) (takeWhile (\<lambda>c. \<not> isSpace c) s) = takeWhile (\<lambda>c. \<not> isSpace c) s"
      by (simp add: filter_id_conv) (auto dest: set_takeWhileD)
    have f2: "filter (\<lambda>c. \<not> isSpace c) (takeWhile isSpace r) = []"
      by (simp add: filter_empty_conv) (auto dest: set_takeWhileD)
    have "filter (\<lambda>c. \<not> isSpace c) r = filter (\<lambda>c. \<not> isSpace c) (dropWhile isSpace r)"
      using f2 by (subst r) (simp only: filter_append, simp)
    then have "filter (\<lambda>c. \<not> isSpace c) s
        = takeWhile (\<lambda>c. \<not> isSpace c) s @ filter (\<lambda>c. \<not> isSpace c) (dropWhile isSpace r)"
      using f1 d by (subst s) (simp only: filter_append filter.simps, simp)
    then show ?thesis using "1.IH" [OF Cons] by (simp only: split_ws_Cons [OF Cons]) simp
  qed
qed

lemma filter_trim: "filter (\<lambda>c. \<not> isSpace c) (trim s) = filter (\<lambda>c. \<not> isSpace c) s"
proof -
  have a: "filter (\<lambda>c. \<not> isSpace c) (dropWhile isSpace t) = filter (\<lambda>c. \<not> isSpace c) t" for t
    by (induction t) simp_all
  show ?thesis
    proof -
    have "filter (\<lambda>c. \<not> isSpace c) (trim s)
        = rev (filter (\<lambda>c. \<not> isSpace c) (dropWhile isSpace (rev (dropWhile isSpace s))))"
      by (simp add: trim_def rev_filter)
    also have "\<dots> = rev (filter (\<lambda>c. \<not> isSpace c) (rev (dropWhile isSpace s)))"
      by (simp only: a)
    also have "\<dots> = filter (\<lambda>c. \<not> isSpace c) (dropWhile isSpace s)"
      by (simp add: rev_filter)
    finally show ?thesis by (simp only: a)
  qed
qed


lemma maximal_run_Nil: "\<not> maximal_run [] tok"
  by (simp add: maximal_run_def)

lemma maximal_run_space_Cons:
  assumes "isSpace c"
  shows "maximal_run (c # s) tok \<longleftrightarrow> maximal_run s tok"
proof
  assume "maximal_run (c # s) tok"
  then obtain pre post where tok: "tok \<noteq> []" "list_all (\<lambda>c. \<not> isSpace c) tok"
    and eq: "c # s = pre @ tok @ post"
    and pre: "pre = [] \<or> isSpace (last pre)" and post: "post = [] \<or> isSpace (hd post)"
    by (auto simp: maximal_run_def)
  have "pre \<noteq> []"
  proof
    assume "pre = []"
    with eq tok(1) have "hd tok = c" by (cases tok) auto
    with tok assms show False by (cases tok) auto
  qed
  then obtain pre' where pre': "pre = c # pre'" using eq by (cases pre) auto
  with eq have "s = pre' @ tok @ post" by simp
  moreover have "pre' = [] \<or> isSpace (last pre')" using pre pre' by (cases "pre' = []") auto
  ultimately show "maximal_run s tok" using tok post by (auto simp: maximal_run_def)
next
  assume "maximal_run s tok"
  then obtain pre post where tok: "tok \<noteq> []" "list_all (\<lambda>c. \<not> isSpace c) tok"
    and eq: "s = pre @ tok @ post"
    and pre: "pre = [] \<or> isSpace (last pre)" and post: "post = [] \<or> isSpace (hd post)"
    by (auto simp: maximal_run_def)
  have "c # s = (c # pre) @ tok @ post" using eq by simp
  moreover have "isSpace (last (c # pre))" using pre assms by auto
  ultimately show "maximal_run (c # s) tok"
    using tok post unfolding maximal_run_def by blast
qed

lemma maximal_run_spaces_append:
  "list_all isSpace sp \<Longrightarrow> maximal_run (sp @ s) tok \<longleftrightarrow> maximal_run s tok"
  by (induction sp) (simp_all add: maximal_run_space_Cons)

lemma maximal_run_nonspaces_append:
  assumes a: "a \<noteq> []" "list_all (\<lambda>c. \<not> isSpace c) a" and s: "s = [] \<or> isSpace (hd s)"
  shows "maximal_run (a @ s) tok \<longleftrightarrow> tok = a \<or> maximal_run s tok"
proof
  assume "maximal_run (a @ s) tok"
  then obtain pre post where tok: "tok \<noteq> []" "list_all (\<lambda>c. \<not> isSpace c) tok"
    and eq: "a @ s = pre @ tok @ post"
    and pre: "pre = [] \<or> isSpace (last pre)" and post: "post = [] \<or> isSpace (hd post)"
    by (auto simp: maximal_run_def)
  from eq consider u where "a = pre @ u" "u @ s = tok @ post"
    | u where "pre = a @ u" "s = u @ tok @ post"
    by (auto simp: append_eq_append_conv2)
  then show "tok = a \<or> maximal_run s tok"
  proof cases
    case 1
    have "pre = []"
    proof (rule ccontr)
      assume ne: "pre \<noteq> []"
      then have "last pre \<in> set a" using 1(1) by simp
      then show False using pre ne a(2) by (auto simp: list_all_iff)
    qed
    with 1 have eq2: "a @ s = tok @ post" by simp
    then consider v where "a = tok @ v" "v @ s = post" | v where "a @ v = tok" "s = v @ post"
      by (auto simp: append_eq_append_conv2)
    then have "tok = a"
    proof cases
      case 1
      show ?thesis
      proof (cases "v = []")
        case True
        with 1 show ?thesis by simp
      next
        case False
        then have "hd post = hd v" "post \<noteq> []" using 1(2) by auto
        moreover have "hd v \<in> set a" using False 1(1) by (cases v) auto
        ultimately show ?thesis using post a(2) by (auto simp: list_all_iff)
      qed
    next
      case 2
      show ?thesis
      proof (cases "v = []")
        case True
        with 2 show ?thesis by simp
      next
        case False
        then have "hd s = hd v" "s \<noteq> []" using 2(2) by auto
        moreover have "hd v \<in> set tok" using False 2(1) by (cases v) auto
        ultimately show ?thesis using s tok(2) by (auto simp: list_all_iff)
      qed
    qed
    then show ?thesis ..
  next
    case 2
    have "u \<noteq> []"
    proof
      assume "u = []"
      with 2 tok(1) have "hd s = hd tok" "s \<noteq> []" by auto
      moreover have "hd tok \<in> set tok" using tok(1) by simp
      ultimately show False using s tok(2) by (auto simp: list_all_iff)
    qed
    then have "isSpace (last u)" using pre 2(1) by auto
    then have "maximal_run s tok"
      using tok post 2(2) unfolding maximal_run_def by blast
    then show ?thesis ..
  qed
next
  assume "tok = a \<or> maximal_run s tok"
  then show "maximal_run (a @ s) tok"
  proof
    assume t: "tok = a"
    have "a @ s = [] @ a @ s" by simp
    then show ?thesis using a s unfolding maximal_run_def t by blast
  next
    assume "maximal_run s tok"
    then obtain pre post where tok: "tok \<noteq> []" "list_all (\<lambda>c. \<not> isSpace c) tok"
      and eq: "s = pre @ tok @ post"
      and pre: "pre = [] \<or> isSpace (last pre)" and post: "post = [] \<or> isSpace (hd post)"
      by (auto simp: maximal_run_def)
    have "pre \<noteq> []"
    proof
      assume "pre = []"
      with eq tok(1) have "hd s = hd tok" "s \<noteq> []" by auto
      moreover have "hd tok \<in> set tok" using tok(1) by simp
      ultimately show False using s tok(2) by (auto simp: list_all_iff)
    qed
    then have "isSpace (last (a @ pre))" using pre by simp
    moreover have "a @ s = (a @ pre) @ tok @ post" using eq by simp
    ultimately show ?thesis using tok post unfolding maximal_run_def by blast
  qed
qed

lemma maximal_run_rev: "maximal_run (rev s) (rev tok) \<longleftrightarrow> maximal_run s tok"
proof -
  have dir: "maximal_run s tok \<Longrightarrow> maximal_run (rev s) (rev tok)" for s tok
  proof -
    assume "maximal_run s tok"
    then obtain pre post where tok: "tok \<noteq> []" "list_all (\<lambda>c. \<not> isSpace c) tok"
      and eq: "s = pre @ tok @ post"
      and pre: "pre = [] \<or> isSpace (last pre)" and post: "post = [] \<or> isSpace (hd post)"
      by (auto simp: maximal_run_def)
    have "rev s = rev post @ rev tok @ rev pre" using eq by simp
    moreover have "rev post = [] \<or> isSpace (last (rev post))" using post by (auto simp: last_rev)
    moreover have "rev pre = [] \<or> isSpace (hd (rev pre))" using pre by (auto simp: hd_rev)
    moreover have "rev tok \<noteq> []" "list_all (\<lambda>c. \<not> isSpace c) (rev tok)"
      using tok by (simp_all add: list_all_iff)
    ultimately show ?thesis unfolding maximal_run_def by blast
  qed
  from dir [of s tok] dir [of "rev s" "rev tok"] show ?thesis by auto
qed

lemma maximal_run_dropWhile: "maximal_run (dropWhile isSpace s) tok \<longleftrightarrow> maximal_run s tok"
proof -
  have "list_all isSpace (takeWhile isSpace s)"
    by (auto simp: list_all_iff dest: set_takeWhileD)
  from maximal_run_spaces_append [OF this, of "dropWhile isSpace s" tok] show ?thesis by simp
qed

lemma maximal_run_trim: "maximal_run (trim s) tok \<longleftrightarrow> maximal_run s tok"
proof -
  have "maximal_run (trim s) tok \<longleftrightarrow> maximal_run (rev (trim s)) (rev tok)"
    by (simp only: maximal_run_rev)
  also have "\<dots> \<longleftrightarrow> maximal_run (rev (dropWhile isSpace s)) (rev tok)"
    by (simp add: trim_def maximal_run_dropWhile)
  also have "\<dots> \<longleftrightarrow> maximal_run s tok"
    by (simp only: maximal_run_rev maximal_run_dropWhile)
  finally show ?thesis .
qed

lemma split_ws_maximal_run:
  "tok \<in> set (filter (\<lambda>word. length word > 0) (split_ws s)) \<longleftrightarrow> maximal_run s tok"
proof (induction s rule: split_ws.induct)
  case (1 s)
  let ?a = "takeWhile (\<lambda>c. \<not> isSpace c) s"
  have a: "list_all (\<lambda>c. \<not> isSpace c) ?a"
    by (auto simp: list_all_iff dest: set_takeWhileD)
  show ?case
  proof (cases "dropWhile (\<lambda>c. \<not> isSpace c) s")
    case Nil
    then have all: "list_all (\<lambda>c. \<not> isSpace c) s" by (simp add: list_all_iff)
    show ?thesis
    proof (cases "s = []")
      case True
      then show ?thesis using Nil by (simp add: split_ws_Nil maximal_run_Nil)
    next
      case False
      from maximal_run_nonspaces_append [OF False all, of "[]" tok]
      have "maximal_run s tok \<longleftrightarrow> tok = s" by (simp add: maximal_run_Nil)
      then show ?thesis using False by (simp only: split_ws_Nil [OF Nil]) auto
    qed
  next
    case (Cons d r)
    have d: "isSpace d" using Cons hd_dropWhile [of "\<lambda>c. \<not> isSpace c" s] by auto
    have s: "s = ?a @ d # r"
      using Cons takeWhile_dropWhile_id [of "\<lambda>c. \<not> isSpace c" s] by simp
    have rest: "maximal_run (d # r) tok \<longleftrightarrow> maximal_run (dropWhile isSpace r) tok"
      by (simp add: maximal_run_space_Cons [OF d] maximal_run_dropWhile)
    have "maximal_run s tok \<longleftrightarrow> (?a \<noteq> [] \<and> tok = ?a) \<or> maximal_run (dropWhile isSpace r) tok"
    proof (cases "?a = []")
      case True
      then have "s = d # r" using s by simp
      then show ?thesis using rest True by simp
    next
      case False
      from maximal_run_nonspaces_append [OF False a, of "d # r" tok] d
      have "maximal_run (?a @ d # r) tok \<longleftrightarrow> tok = ?a \<or> maximal_run (d # r) tok" by simp
      then show ?thesis using rest False s by simp
    qed
    then show ?thesis using "1.IH" [OF Cons] by (simp only: split_ws_Cons [OF Cons]) auto
  qed
qed

lemma nonspace_run_split:
  assumes "list_all (\<lambda>c. \<not> isSpace c) u" "rest = [] \<or> isSpace (hd rest)"
  shows "takeWhile (\<lambda>c. \<not> isSpace c) (u @ rest) = u"
    and "dropWhile (\<lambda>c. \<not> isSpace c) (u @ rest) = rest"
proof -
  have u: "\<forall>x\<in>set u. \<not> isSpace x" using assms(1) by (simp add: list_all_iff)
  have r: "takeWhile (\<lambda>c. \<not> isSpace c) rest = []" "dropWhile (\<lambda>c. \<not> isSpace c) rest = rest"
    using assms(2) by (cases rest; simp)+
  show "takeWhile (\<lambda>c. \<not> isSpace c) (u @ rest) = u"
    using u r by (simp add: takeWhile_append2)
  show "dropWhile (\<lambda>c. \<not> isSpace c) (u @ rest) = rest"
    using u r by (simp add: dropWhile_append2)
qed

lemma m_nonspaces_iff:
  "m_nonspaces s = Some rest \<longleftrightarrow>
     (\<exists>u. u \<noteq> [] \<and> list_all (\<lambda>c. \<not> isSpace c) u \<and> s = u @ rest \<and> (rest = [] \<or> isSpace (hd rest)))"
proof
  assume m: "m_nonspaces s = Some rest"
  let ?u = "takeWhile (\<lambda>c. \<not> isSpace c) s"
  from m have ne: "?u \<noteq> []" and rest: "rest = dropWhile (\<lambda>c. \<not> isSpace c) s"
    by (auto simp: m_nonspaces_def split: if_splits)
  have "list_all (\<lambda>c. \<not> isSpace c) ?u" by (auto simp: list_all_iff dest: set_takeWhileD)
  moreover have "s = ?u @ rest" by (simp add: rest)
  moreover have "rest = [] \<or> isSpace (hd rest)"
    using hd_dropWhile [of "\<lambda>c. \<not> isSpace c" s] by (auto simp: rest)
  ultimately show "\<exists>u. u \<noteq> [] \<and> list_all (\<lambda>c. \<not> isSpace c) u \<and> s = u @ rest \<and> (rest = [] \<or> isSpace (hd rest))"
    using ne by blast
next
  assume "\<exists>u. u \<noteq> [] \<and> list_all (\<lambda>c. \<not> isSpace c) u \<and> s = u @ rest \<and> (rest = [] \<or> isSpace (hd rest))"
  then obtain u where u: "u \<noteq> []" "list_all (\<lambda>c. \<not> isSpace c) u" "s = u @ rest"
    "rest = [] \<or> isSpace (hd rest)" by blast
  from nonspace_run_split [OF u(2) u(4)] u(1) show "m_nonspaces s = Some rest"
    by (simp add: m_nonspaces_def u(3))
qed

lemma after_prefix_iff: "after_prefix p s = Some t \<longleftrightarrow> s = p @ t"
proof
  assume "after_prefix p s = Some t"
  then have "take (length p) s = p" "t = drop (length p) s"
    by (auto simp: after_prefix_def split: if_splits)
  then show "s = p @ t" by (metis append_take_drop_id)
next
  assume "s = p @ t"
  then show "after_prefix p s = Some t" by (simp add: after_prefix_def)
qed

lemma after_prefix_append: "after_prefix p (p @ t) = Some t"
  by (simp add: after_prefix_def)

lemma m_citation_iff:
  "m_citation s = Some rest \<longleftrightarrow>
     (\<exists>ds. ds \<noteq> [] \<and> list_all isDigit ds \<and> s = 0x5B # ds @ 0x5D # rest)"
proof
  assume m: "m_citation s = Some rest"
  then obtain t where s: "s = 0x5B # t" and ne: "takeWhile isDigit t \<noteq> []"
    and d: "dropWhile isDigit t = 0x5D # rest"
    by (auto simp: m_citation_def split: list.splits if_splits)
  have "t = takeWhile isDigit t @ 0x5D # rest" using d by (metis takeWhile_dropWhile_id)
  moreover have "list_all isDigit (takeWhile isDigit t)"
    by (auto simp: list_all_iff dest: set_takeWhileD)
  ultimately show "\<exists>ds. ds \<noteq> [] \<and> list_all isDigit ds \<and> s = 0x5B # ds @ 0x5D # rest"
    using s ne by blast
next
  assume "\<exists>ds. ds \<noteq> [] \<and> list_all isDigit ds \<and> s = 0x5B # ds @ 0x5D # rest"
  then obtain ds where ds: "ds \<noteq> []" "list_all isDigit ds" "s = 0x5B # ds @ 0x5D # rest" by blast
  have nd: "\<not> isDigit 0x5D" by (simp add: isDigit_def)
  have all: "\<forall>x\<in>set ds. isDigit x" using ds(2) by (simp add: list_all_iff)
  have "takeWhile isDigit (ds @ 0x5D # rest) = ds" "dropWhile isDigit (ds @ 0x5D # rest) = 0x5D # rest"
    using all nd by (simp_all add: takeWhile_append2 dropWhile_append2)
  then show "m_citation s = Some rest" using ds(1) by (simp add: m_citation_def ds(3))
qed

lemma m_www_iff:
  "m_www s = Some rest \<longleftrightarrow>
     (\<exists>u. u \<noteq> [] \<and> list_all (\<lambda>c. \<not> isSpace c) u \<and> s = js ''www.'' @ u @ rest
        \<and> (rest = [] \<or> isSpace (hd rest)))"
proof -
  have "m_www s = Some rest \<longleftrightarrow> (\<exists>t. s = js ''www.'' @ t \<and> m_nonspaces t = Some rest)"
    by (cases "after_prefix (js ''www.'') s") (auto simp: m_www_def after_prefix_iff after_prefix_append)
  then show ?thesis by (auto simp: m_nonspaces_iff)
qed

lemma m_http_iff:
  "m_http s = Some rest \<longleftrightarrow>
     (\<exists>u. u \<noteq> [] \<and> list_all (\<lambda>c. \<not> isSpace c) u
        \<and> (s = js ''http://'' @ u @ rest \<or> s = js ''https://'' @ u @ rest)
        \<and> (rest = [] \<or> isSpace (hd rest)))"
proof
  assume m: "m_http s = Some rest"
  then obtain t v where t: "s = js ''http'' @ t"
    and v: "(case t of [] \<Rightarrow> t | c # r \<Rightarrow> if c = 0x73 then r else t) = js ''://'' @ v"
    and n: "m_nonspaces v = Some rest"
    by (auto simp: m_http_def after_prefix_iff split: option.splits)
  from n obtain u where u: "u \<noteq> []" "list_all (\<lambda>c. \<not> isSpace c) u" "v = u @ rest"
    "rest = [] \<or> isSpace (hd rest)" by (auto simp: m_nonspaces_iff)
  have "t = js ''://'' @ v \<or> t = js ''s://'' @ v"
    using v by (cases t) (auto simp: js_def split: if_splits)
  then have "s = js ''http://'' @ u @ rest \<or> s = js ''https://'' @ u @ rest"
    using t u(3) by (auto simp: js_def)
  then show "\<exists>u. u \<noteq> [] \<and> list_all (\<lambda>c. \<not> isSpace c) u
        \<and> (s = js ''http://'' @ u @ rest \<or> s = js ''https://'' @ u @ rest)
        \<and> (rest = [] \<or> isSpace (hd rest))" using u by blast
next
  assume "\<exists>u. u \<noteq> [] \<and> list_all (\<lambda>c. \<not> isSpace c) u
        \<and> (s = js ''http://'' @ u @ rest \<or> s = js ''https://'' @ u @ rest)
        \<and> (rest = [] \<or> isSpace (hd rest))"
  then obtain u where u: "u \<noteq> []" "list_all (\<lambda>c. \<not> isSpace c) u"
    "s = js ''http://'' @ u @ rest \<or> s = js ''https://'' @ u @ rest"
    "rest = [] \<or> isSpace (hd rest)" by blast
  have n: "m_nonspaces (u @ rest) = Some rest" using u by (auto simp: m_nonspaces_iff)
  from u(3) show "m_http s = Some rest"
  proof
    assume "s = js ''http://'' @ u @ rest"
    then show ?thesis using n by (simp add: m_http_def after_prefix_def js_def)
  next
    assume "s = js ''https://'' @ u @ rest"
    then show ?thesis using n by (simp add: m_http_def after_prefix_def js_def)
  qed
qed

section \<open>Properties of the scheduler\<close>

lemma filter_single_id:
  "map (\<lambda>p. Some (fst p)) ps = [Some t] \<Longrightarrow> filter (\<lambda>p. fst p \<noteq> t) ps = []"
  by (cases ps) auto

lemma filter_single_mem:
  "map (\<lambda>p. Some (fst p)) ps = [tm] \<Longrightarrow> t \<in> fst ` set ps \<Longrightarrow> filter (\<lambda>p. fst p \<noteq> t) ps = []"
  by (cases ps) auto

lemma engine_inv_Reader: "engine_inv Reader"
  by (simp add: engine_inv_def Reader_def)

lemma pause_props:
  "words (pause s) = words s" "currentIndex (pause s) = currentIndex s"
  "\<not> isPlaying (pause s)" "events (pause s) = events s"
  "onWordChange (pause s) = onWordChange s" "onProgress (pause s) = onProgress s"
  "onComplete (pause s) = onComplete s" "getWPM (pause s) = getWPM s"
  "timer (pause s) = None"
  by (simp_all add: pause_def Let_def split: option.splits)

lemma pause_pending: "engine_inv s \<Longrightarrow> pending (pause s) = []"
  by (auto simp: pause_def Let_def engine_inv_def filter_single_id split: option.splits if_splits)

lemma pause_inv: "engine_inv s \<Longrightarrow> engine_inv (pause s)"
  using pause_pending [of s] by (simp add: engine_inv_def pause_props)

lemma scheduleNext_complete:
  assumes "currentIndex s \<ge> int (length (words s))"
  shows "scheduleNext e s =
           Inr (if onComplete s then emit Complete (s\<lparr>isPlaying := False\<rparr>) else s\<lparr>isPlaying := False\<rparr>)"
  using assms by (simp add: scheduleNext_def)

lemma scheduleNext_schedule:
  assumes "isPlaying s" "0 \<le> currentIndex s" "currentIndex s < int (length (words s))"
  shows "\<exists>s' d. scheduleNext e s = Inr s' \<and> words s' = words s \<and> currentIndex s' = currentIndex s
     \<and> isPlaying s' \<and> pending s' = pending s @ [(nextId s, d)] \<and> timer s' = Some (nextId s)
     \<and> completions s' = completions s \<and> onComplete s' = onComplete s"
  using assms
  by (simp add: scheduleNext_def wordAt_def Let_def setTimeout_def emit_def completions_def)


lemma scheduleNext_clean:
  assumes "isPlaying s" "pending s = []" "0 \<le> currentIndex s"
    "currentIndex s \<le> int (length (words s))"
  shows "\<exists>s'. scheduleNext e s = Inr s' \<and> engine_inv s' \<and> words s' = words s
     \<and> currentIndex s' = currentIndex s
     \<and> (isPlaying s' \<longleftrightarrow> currentIndex s < int (length (words s)))
     \<and> completions s' = completions s +
           (if currentIndex s < int (length (words s)) then 0 else if onComplete s then 1 else 0)
     \<and> onComplete s' = onComplete s"
proof (cases "currentIndex s < int (length (words s))")
  case True
  with assms show ?thesis
    by (simp add: scheduleNext_def wordAt_def Let_def setTimeout_def emit_def completions_def
        engine_inv_def)
next
  case False
  with assms show ?thesis
    by (simp add: scheduleNext_def emit_def completions_def engine_inv_def)
qed

lemma init_inv: "engine_inv s \<Longrightarrow> engine_inv (init text s)"
  by (auto simp: init_def stop_def pause_def Let_def engine_inv_def filter_single_id
      split: option.splits if_splits)

lemma stop_inv: "engine_inv s \<Longrightarrow> engine_inv (stop s)"
  using pause_pending [of s] by (simp add: stop_def engine_inv_def pause_props)

lemma restart_inv: "engine_inv s \<Longrightarrow> engine_inv (restart s)"
  using pause_pending [of s] by (simp add: restart_def Let_def emit_def engine_inv_def pause_props)

lemma goToEnd_inv: "engine_inv s \<Longrightarrow> engine_inv (goToEnd s)"
  using pause_pending [of s] by (simp add: goToEnd_def Let_def emit_def engine_inv_def pause_props)

lemma displayWordAt_inv: "engine_inv s \<Longrightarrow> engine_inv (displayWordAt i wpm s)"
  by (auto simp: displayWordAt_def Let_def emit_def engine_inv_def split: option.splits)

lemma play_inv: "engine_inv s \<Longrightarrow> \<exists>s'. play t0 e s = Inr s' \<and> engine_inv s'"
proof (cases "isPlaying s")
  case True
  assume "engine_inv s"
  with True show ?thesis by (simp add: play_def)
next
  case False
  assume inv: "engine_inv s"
  let ?s1 = "if currentIndex s \<ge> int (length (words s)) then s\<lparr>currentIndex := 0\<rparr> else s"
  let ?s2 = "?s1\<lparr>isPlaying := True, expectedTime := t0\<rparr>"
  have "isPlaying ?s2" "pending ?s2 = []" "0 \<le> currentIndex ?s2"
    "currentIndex ?s2 \<le> int (length (words ?s2))"
    using inv False by (auto simp: engine_inv_def)
  from scheduleNext_clean [OF this, of e] obtain s' where
    "scheduleNext e ?s2 = Inr s'" "engine_inv s'" by blast
  then show ?thesis using False by (simp add: play_def Let_def)
qed

lemma timerFired_inv:
  assumes "engine_inv s" "t \<in> fst ` set (pending s)"
  shows "\<exists>s'. timerFired t e s = Inr s' \<and> engine_inv s'"
proof -
  from assms have pl: "isPlaying s" by (auto simp: engine_inv_def split: if_splits)
  with assms(1) have tm: "map (\<lambda>p. Some (fst p)) (pending s) = [timer s]"
    and idx: "0 \<le> currentIndex s" "currentIndex s < int (length (words s))"
    by (auto simp: engine_inv_def)
  let ?s1 = "s\<lparr>pending := filter (\<lambda>p. fst p \<noteq> t) (pending s), currentIndex := currentIndex s + 1\<rparr>"
  have "isPlaying ?s1" "pending ?s1 = []" "0 \<le> currentIndex ?s1"
    "currentIndex ?s1 \<le> int (length (words ?s1))"
    using pl idx filter_single_mem [OF tm assms(2)] by simp_all
  from scheduleNext_clean [OF this, of e] obtain s' where
    "scheduleNext e ?s1 = Inr s'" "engine_inv s'" by blast
  then show ?thesis by (simp add: timerFired_def)
qed

lemma perform_inv:
  assumes "engine_inv s" "enabled a s"
  shows "\<exists>s'. perform a s = Inr s' \<and> engine_inv s'"
proof (cases a)
  case (Init tx)
  then show ?thesis using assms init_inv by simp
next
  case (Play t0 e)
  then show ?thesis using assms play_inv by simp
next
  case (TimerFired t e)
  then show ?thesis using assms timerFired_inv by simp
next
  case Pause
  then show ?thesis using assms pause_inv by simp
next
  case Stop
  then show ?thesis using assms stop_inv by simp
next
  case Restart
  then show ?thesis using assms restart_inv by simp
next
  case GoToEnd
  then show ?thesis using assms goToEnd_inv by simp
next
  case (SeekTo i wpm)
  then show ?thesis using assms displayWordAt_inv by simp
next
  case (SetHooks w p c g)
  then show ?thesis using assms by (simp add: engine_inv_def)
qed

lemma reachable_inv: "reachable s \<Longrightarrow> engine_inv s"
proof (induction rule: reachable.induct)
  case start
  show ?case by (rule engine_inv_Reader)
next
  case (step s a s')
  from perform_inv [OF step.IH step.hyps(2)] step.hyps(3) show ?case by auto
qed

lemma playback_run:
  assumes "engine_inv s" "isPlaying s"
  shows "\<exists>s'. playback es s = Inr s' \<and> engine_inv s' \<and> words s' = words s
     \<and> currentIndex s' = currentIndex s + min (int (length es)) (int (length (words s)) - currentIndex s)
     \<and> (isPlaying s' \<longleftrightarrow> int (length es) < int (length (words s)) - currentIndex s)
     \<and> completions s' = completions s +
          (if int (length es) < int (length (words s)) - currentIndex s then 0
           else if onComplete s then 1 else 0)
     \<and> onComplete s' = onComplete s"
  using assms
proof (induction es arbitrary: s)
  case Nil
  then show ?case by (auto simp: engine_inv_def)
next
  case (Cons e es)
  from Cons.prems have tm: "map (\<lambda>p. Some (fst p)) (pending s) = [timer s]"
    and idx: "0 \<le> currentIndex s" "currentIndex s < int (length (words s))"
    by (auto simp: engine_inv_def)
  from tm obtain p where p: "pending s = [p]" by (cases "pending s") auto
  then have mem: "fst p \<in> fst ` set (pending s)" by simp
  let ?s1 = "s\<lparr>pending := filter (\<lambda>q. fst q \<noteq> fst p) (pending s), currentIndex := currentIndex s + 1\<rparr>"
  have "isPlaying ?s1" "pending ?s1 = []" "0 \<le> currentIndex ?s1"
    "currentIndex ?s1 \<le> int (length (words ?s1))"
    using Cons.prems(2) idx filter_single_mem [OF tm mem] by simp_all
  from scheduleNext_clean [OF this, of e] obtain s1 where
    s1: "timerFired (fst p) e s = Inr s1" "engine_inv s1" "words s1 = words s"
      "currentIndex s1 = currentIndex s + 1"
      "isPlaying s1 \<longleftrightarrow> currentIndex s + 1 < int (length (words s))"
      "completions s1 = completions s +
         (if currentIndex s + 1 < int (length (words s)) then 0 else if onComplete s then 1 else 0)"
      "onComplete s1 = onComplete s"
    by (auto simp: timerFired_def completions_def)
  have pb: "playback (e # es) s = playback es s1" using p s1(1) by simp
  show ?case
  proof (cases "isPlaying s1")
    case True
    from Cons.IH [OF s1(2) True] obtain s' where
      "playback es s1 = Inr s'" "engine_inv s'" "words s' = words s1"
      "currentIndex s' = currentIndex s1 + min (int (length es)) (int (length (words s1)) - currentIndex s1)"
      "isPlaying s' \<longleftrightarrow> int (length es) < int (length (words s1)) - currentIndex s1"
      "completions s' = completions s1 +
          (if int (length es) < int (length (words s1)) - currentIndex s1 then 0
           else if onComplete s1 then 1 else 0)"
      "onComplete s' = onComplete s1" by blast
    then show ?thesis using pb s1 True by (auto simp: min_def)
  next
    case False
    then have "pending s1 = []" using s1(2) by (simp add: engine_inv_def)
    then have "playback es s1 = Inr s1" by (cases es) simp_all
    moreover have last: "int (length (words s)) - currentIndex s = 1" using s1(5) False idx by simp
    moreover have "min (int (length (e # es))) 1 = 1" "\<not> int (length (e # es)) < 1" by simp_all
    ultimately show ?thesis using pb s1 False by (simp only: last) simp
  qed
qed

lemma play_effect:
  assumes "engine_inv s"
  shows "\<exists>s'. play t0 e s = Inr s' \<and> engine_inv s' \<and> words s' = words s
     \<and> (if isPlaying s then s' = s
         else currentIndex s' = play_start s
            \<and> (isPlaying s' \<longleftrightarrow> words s \<noteq> [])
            \<and> completions s' = completions s + (if words s \<noteq> [] then 0 else if onComplete s then 1 else 0)
            \<and> onComplete s' = onComplete s)"
proof (cases "isPlaying s")
  case True
  with assms show ?thesis by (simp add: play_def)
next
  case False
  let ?s1 = "if currentIndex s \<ge> int (length (words s)) then s\<lparr>currentIndex := 0\<rparr> else s"
  let ?s2 = "?s1\<lparr>isPlaying := True, expectedTime := t0\<rparr>"
  have pre: "isPlaying ?s2" "pending ?s2 = []" "0 \<le> currentIndex ?s2"
    "currentIndex ?s2 \<le> int (length (words ?s2))"
    using assms False by (auto simp: engine_inv_def)
  have facts: "words ?s2 = words s" "currentIndex ?s2 = play_start s" "completions ?s2 = completions s"
    "onComplete ?s2 = onComplete s"
    by (simp_all add: play_start_def completions_def)
  have lt: "play_start s < int (length (words s)) \<longleftrightarrow> words s \<noteq> []"
    using assms by (auto simp: play_start_def engine_inv_def)
  from scheduleNext_clean [OF pre, of e] obtain s' where
    "scheduleNext e ?s2 = Inr s'" "engine_inv s'" "words s' = words s"
    "currentIndex s' = play_start s" "isPlaying s' \<longleftrightarrow> words s \<noteq> []"
    "completions s' = completions s + (if words s \<noteq> [] then 0 else if onComplete s then 1 else 0)"
    "onComplete s' = onComplete s"
    unfolding facts lt by blast
  then show ?thesis using False by (simp add: play_def Let_def)
qed

lemma timerFired_effect:
  assumes "engine_inv s" "t \<in> fst ` set (pending s)"
  shows "\<exists>s'. timerFired t e s = Inr s' \<and> engine_inv s' \<and> words s' = words s
     \<and> isPlaying s \<and> currentIndex s' = currentIndex s + 1
     \<and> (isPlaying s' \<longleftrightarrow> currentIndex s + 1 < int (length (words s)))
     \<and> completions s' = completions s +
          (if currentIndex s + 1 < int (length (words s)) then 0 else if onComplete s then 1 else 0)"
proof -
  from assms have pl: "isPlaying s" by (auto simp: engine_inv_def split: if_splits)
  with assms(1) have tm: "map (\<lambda>p. Some (fst p)) (pending s) = [timer s]"
    and idx: "0 \<le> currentIndex s" "currentIndex s < int (length (words s))"
    by (auto simp: engine_inv_def)
  let ?s1 = "s\<lparr>pending := filter (\<lambda>p. fst p \<noteq> t) (pending s), currentIndex := currentIndex s + 1\<rparr>"
  have "isPlaying ?s1" "pending ?s1 = []" "0 \<le> currentIndex ?s1"
    "currentIndex ?s1 \<le> int (length (words ?s1))"
    using pl idx filter_single_mem [OF tm assms(2)] by simp_all
  from scheduleNext_clean [OF this, of e] show ?thesis
    using pl by (auto simp: timerFired_def completions_def)
qed

lemma completions_emit:
  "completions (emit ev s) = completions s + (if ev = Complete then 1 else 0)"
  by (simp add: completions_def emit_def)

lemma init_effect:
  "words (init tx s) = parseText tx" "currentIndex (init tx s) = 0" "\<not> isPlaying (init tx s)"
  "timer (init tx s) = None" "events (init tx s) = events s"
  by (simp_all add: init_def stop_def pause_def Let_def split: option.splits)

lemma stop_effect:
  "words (stop s) = words s" "currentIndex (stop s) = 0" "\<not> isPlaying (stop s)"
  "events (stop s) = events s"
  by (simp_all add: stop_def pause_props)

lemma restart_effect:
  "words (restart s) = words s" "currentIndex (restart s) = 0" "\<not> isPlaying (restart s)"
  "completions (restart s) = completions s"
  by (simp_all add: restart_def Let_def emit_def completions_def pause_props)

lemma goToEnd_effect:
  "words (goToEnd s) = words s" "currentIndex (goToEnd s) = max 0 (int (length (words s)) - 1)"
  "\<not> isPlaying (goToEnd s)" "completions (goToEnd s) = completions s"
  by (simp_all add: goToEnd_def Let_def emit_def completions_def pause_props)

lemma displayWordAt_effect:
  "words (displayWordAt i wpm s) = words s"
  "isPlaying (displayWordAt i wpm s) = isPlaying s"
  "completions (displayWordAt i wpm s) = completions s"
  "currentIndex (displayWordAt i wpm s) = (if 0 \<le> i \<and> i < int (length (words s)) then i else currentIndex s)"
  by (simp_all add: displayWordAt_def Let_def emit_def completions_def)

lemma perform_effect:
  assumes inv: "engine_inv s" and en: "enabled a s"
  shows "\<exists>s'. perform a s = Inr s' \<and> engine_inv s'
     \<and> (completions s' = completions s
          \<or> (completions s' = completions s + 1 \<and> currentIndex s' = int (length (words s'))
               \<and> \<not> isPlaying s'))
     \<and> (currentIndex s' = int (length (words s')) \<and> words s' \<noteq> []
          \<longrightarrow> isTimerFired a \<or> (currentIndex s = int (length (words s)) \<and> words s' = words s))"
proof (cases a)
  case (Init tx)
  then show ?thesis using init_inv [OF inv, of tx]
    by (auto simp: init_effect completions_def)
next
  case (Play t0 e)
  from play_effect [OF inv, of t0 e] obtain s' where s': "play t0 e s = Inr s'" "engine_inv s'"
    "words s' = words s"
    "if isPlaying s then s' = s
         else currentIndex s' = play_start s
            \<and> (isPlaying s' \<longleftrightarrow> words s \<noteq> [])
            \<and> completions s' = completions s + (if words s \<noteq> [] then 0 else if onComplete s then 1 else 0)
            \<and> onComplete s' = onComplete s" by blast
  show ?thesis
  proof (cases "isPlaying s")
    case True
    with s' inv Play show ?thesis by (auto simp: engine_inv_def)
  next
    case False
    have "words s \<noteq> [] \<Longrightarrow> play_start s < int (length (words s))"
      using inv by (auto simp: play_start_def engine_inv_def)
    moreover have "words s = [] \<Longrightarrow> play_start s = 0"
      using inv by (auto simp: play_start_def engine_inv_def)
    ultimately show ?thesis using s' False Play by auto
  qed
next
  case (TimerFired t e)
  with en have "t \<in> fst ` set (pending s)" by simp
  from timerFired_effect [OF inv this, of e] obtain s' where s': "timerFired t e s = Inr s'"
    "engine_inv s'" "words s' = words s" "currentIndex s' = currentIndex s + 1"
    "isPlaying s' \<longleftrightarrow> currentIndex s + 1 < int (length (words s))"
    "completions s' = completions s +
          (if currentIndex s + 1 < int (length (words s)) then 0 else if onComplete s then 1 else 0)"
    by blast
  have "currentIndex s' \<le> int (length (words s'))" using s'(2) by (simp add: engine_inv_def)
  then show ?thesis using s' TimerFired by (auto simp: isTimerFired_def)
next
  case Pause
  then show ?thesis using pause_inv [OF inv] by (simp add: pause_props completions_def)
next
  case Stop
  then show ?thesis using stop_inv [OF inv] by (auto simp: stop_effect completions_def)
next
  case Restart
  then show ?thesis using restart_inv [OF inv] by (auto simp: restart_effect)
next
  case GoToEnd
  then show ?thesis using goToEnd_inv [OF inv] by (auto simp: goToEnd_effect)
next
  case (SeekTo i wpm)
  then show ?thesis using displayWordAt_inv [OF inv, of i wpm] by (auto simp: displayWordAt_effect)
next
  case (SetHooks w p c g)
  then show ?thesis using inv by (simp add: engine_inv_def completions_def)
qed

lemma all_space_no_match:
  assumes "list_all isSpace s"
  shows "replace_g m_citation s = s" "replace_g m_http s = s" "replace_g m_www s = s"
proof -
  have c: "isSpace c \<Longrightarrow> m_citation (c # r) = None" for c r
    by (auto simp: m_citation_def isSpace_def)
  have h: "isSpace c \<Longrightarrow> m_http (c # r) = None" for c r
    by (auto simp: m_http_def after_prefix_def js_def isSpace_def)
  have w: "isSpace c \<Longrightarrow> m_www (c # r) = None" for c r
    by (auto simp: m_www_def after_prefix_def js_def isSpace_def)
  show "replace_g m_citation s = s" using assms by (induction s) (simp_all add: c)
  show "replace_g m_http s = s" using assms by (induction s) (simp_all add: h)
  show "replace_g m_www s = s" using assms by (induction s) (simp_all add: w)
qed

lemma parseText_all_space:
  assumes "list_all isSpace tx"
  shows "parseText tx = []"
proof -
  have r: "removeCitations tx = tx" using assms by (simp add: removeCitations_def all_space_no_match)
  have d: "dropWhile isSpace tx = []" using assms by (induction tx) simp_all
  have "trim tx = []" unfolding trim_def d by simp
  then show ?thesis by (simp add: parseText_def r split_ws.simps)
qed

lemma demo_words: "words demo = [js ''Hello,'', js ''world.'', js ''This'', js ''is'', js ''a'', js ''test'']"
  unfolding demo_def init_effect by code_simp

lemma five_words:
  "words five = [js ''one'', js ''two'', js ''three'', js ''four'', js ''five'']"
  unfolding five_def init_effect by code_simp

lemma reachable_demo: "reachable demo"
proof -
  let ?h = "Reader\<lparr>onWordChange := True, onProgress := True, onComplete := True, getWPM := True\<rparr>"
  have "reachable ?h"
    using reachable.step [OF reachable.start, of "SetHooks True True True True" ?h] by simp
  from reachable.step [OF this, of "Init (js ''Hello, world. This is a test'')" demo]
  show ?thesis by (simp add: demo_def)
qed

section \<open>Further properties\<close>

lemma getORPIndex_part0_middle:
  "getORPIndex_part0 w =
     (let n = length (filter isWordChar w)
      in if n \<le> 1 then 0 else if n \<le> 3 then 1 else (n - 1) div 2)"
  by (simp add: getORPIndex_part0_def replace_g_nonword)

lemma getORPIndex_part0_examples:
  "getORPIndex_part0 (js ''a'') = 0 \<and> getORPIndex_part0 (js ''to'') = 1
   \<and> getORPIndex_part0 (js ''the'') = 1 \<and> getORPIndex_part0 (js ''word'') = 1
   \<and> getORPIndex_part0 (js ''reading'') = 3"
  by code_simp

lemma getORPIndex_in_range: "filter isWordChar w \<noteq> [] \<Longrightarrow> getORPIndex w < length (filter isWordChar w)"
  by (cases "filter isWordChar w") (auto simp: getORPIndex_def replace_g_nonword Let_def)

lemma strip_closing_eq: "replace_first m_closing_end w = rev (dropWhile isClosing (rev w))"
proof (induction w)
  case Nil
  show ?case by simp
next
  case (Cons c cs)
  show ?case
  proof (cases "\<forall>x\<in>set (c # cs). isClosing x")
    case True
    then have "dropWhile isClosing (c # cs) = []" "dropWhile isClosing (rev (c # cs)) = []"
      by (simp_all del: dropWhile.simps)
    then show ?thesis by (simp add: m_closing_end_def del: dropWhile.simps)
  next
    case False
    then have n: "m_closing_end (c # cs) = None" by (auto simp: m_closing_end_def)
    have "dropWhile isClosing (rev cs @ [c]) = dropWhile isClosing (rev cs) @ [c]"
      if "\<not> (\<forall>x\<in>set cs. isClosing x)"
    proof -
      from that obtain x where "x \<in> set (rev cs)" "\<not> isClosing x" by auto
      then show ?thesis by (rule dropWhile_append1)
    qed
    moreover have "dropWhile isClosing (rev cs @ [c]) = [c]" "dropWhile isClosing (rev cs) = []"
      if "\<forall>x\<in>set cs. isClosing x"
    proof -
      have "dropWhile isClosing (rev cs @ [c]) = dropWhile isClosing [c]"
        by (rule dropWhile_append2) (use that in auto)
      moreover have "\<not> isClosing c" using that False by auto
      ultimately show "dropWhile isClosing (rev cs @ [c]) = [c]" by simp
      show "dropWhile isClosing (rev cs) = []" using that by simp
    qed
    ultimately show ?thesis using n Cons.IH
      by (cases "\<forall>x\<in>set cs. isClosing x") (simp_all del: dropWhile_eq_Nil_conv)
  qed
qed

lemma getWordDuration_table:
  "getWordDuration w wpm =
     (let c = rev (dropWhile isClosing (rev w))
      in 60000 / wpm *
         (if c = [] then 1
          else if last c = 0x2E \<or> last c = 0x21 \<or> last c = 0x3F then 2
          else if last c = 0x2C \<or> last c = 0x3B \<or> last c = 0x3A then 3 / 2
          else if last c = 0x2D then 6 / 5
          else 1))"
  by (simp add: getWordDuration_def strip_closing_eq punctuationMultipliers_def js_def Let_def)

lemma getWordDuration_examples:
  "getWordDuration (js ''word.'') 300 = 400 \<and> getWordDuration (js ''word,'') 300 = 300
   \<and> getWordDuration (js ''word'') 300 = 200 \<and> getWordDuration (js ''word.\"'') 300 = 400
   \<and> getWordDuration (js ''word-'') 300 = 240 \<and> getWordDuration (js ''(end).'') 300 = 400"
  by code_simp

lemma formatTime_examples:
  "formatTime 0 = js ''0:00'' \<and> formatTime 125 = js ''2:05'' \<and> formatTime (119 / 2) = js ''0:60''
   \<and> formatTime (594 / 10) = js ''0:59'' \<and> formatTime 60 = js ''1:00''"
  by code_simp

lemma sample_tokens: "parseText sample_text = [js ''see'', js ''and'', js ''or'', js ''now.'']"
  by code_simp

lemma parseText_part0_keeps_markers:
  "parseText_part0 (js ''a [1] b'') = [js ''a'', js ''[1]'', js ''b'']"
  by code_simp

lemma demo_facts:
  "\<not> isPlaying demo" "onComplete demo" "currentIndex demo = 0" "completions demo = 0"
  "length (words demo) = 6"
  by (simp_all add: demo_words) (simp_all add: demo_def init_effect completions_def Reader_def
      init_def stop_def pause_def)

section \<open>The claims\<close>

text \<open>
  Claim C1, as the engine implements it. The highlight offset is computed on the token
  with every code unit outside \<open>[A-Za-z0-9_]\<close> removed; with \<open>n\<close> the number of code units
  left, it is 0 for \<open>n \<le> 1\<close>, 1 for \<open>n \<le> 5\<close>, 2 for \<open>n \<le> 9\<close>, 3 for \<open>n \<le> 13\<close> and 4
  beyond. The offsets of "a", "to", "the", "word" and "reading" are 0, 1, 1, 1 and 2.
  The offset of "to" is not 0 in either copy of the engine, and the offset of "reading"
  is not the middle index 3 in \<open>src/js/reader.js\<close>.
\<close>

theorem getORPIndex_thresholds:
  "getORPIndex w =
     (let n = length (filter isWordChar w)
      in if n \<le> 1 then 0 else if n \<le> 5 then 1 else if n \<le> 9 then 2
         else if n \<le> 13 then 3 else 4)
   \<and> getORPIndex (js ''a'') = 0 \<and> getORPIndex (js ''to'') = 1
   \<and> getORPIndex (js ''the'') = 1 \<and> getORPIndex (js ''word'') = 1
   \<and> getORPIndex (js ''reading'') = 2"
proof -
  have general: "getORPIndex w =
     (let n = length (filter isWordChar w)
      in if n \<le> 1 then 0 else if n \<le> 5 then 1 else if n \<le> 9 then 2
         else if n \<le> 13 then 3 else 4)"
    by (simp add: getORPIndex_def replace_g_nonword)
  have examples: "getORPIndex (js ''a'') = 0 \<and> getORPIndex (js ''to'') = 1
   \<and> getORPIndex (js ''the'') = 1 \<and> getORPIndex (js ''word'') = 1
   \<and> getORPIndex (js ''reading'') = 2"
    by code_simp
  from general examples show ?thesis by blast
qed

theorem getORPIndex_thresholds_witness:
  "getORPIndex (js ''(reading),'') = 2"
  using getORPIndex_thresholds [of "js ''(reading),''"]
  by (simp add: js_def isWordChar_def isDigit_def)

theorem getORPIndex_claim_counterexample:
  "getORPIndex (js ''to'') \<noteq> 0 \<and> getORPIndex_part0 (js ''to'') \<noteq> 0
   \<and> getORPIndex (js ''reading'') \<noteq> 3
   \<and> getORPIndex (js ''reading'') \<noteq> (length (filter isAlphanumeric_spec (js ''reading'')) - 1) div 2"
  by code_simp

text \<open>
  Claim C2 at a token that ends in an em dash (U+2014): at 300 words per minute the
  duration is 200 ms, the plain base delay, and not 260 ms. The key of the multiplier
  table that stands for the em dash is a string of three code units, which a single
  last character never equals.
\<close>

theorem getWordDuration_em_dash:
  "getWordDuration (js ''word'' @ [0x2014]) 300 = 200
   \<and> getWordDuration (js ''word'' @ [0x2014]) 300 \<noteq> (60000 / 300) * (13 / 10)"
  by code_simp

text \<open>
  Claim C3. \<open>removeCitations\<close> drops, scanning from the left, every match of a citation
  marker (\<open>[\<close>, one or more digits, \<open>]\<close>), then every match of \<open>http://\<close> or \<open>https://\<close>
  followed by a non-empty run of code units up to the next white space, then every match
  of \<open>www.\<close> followed by such a run. \<open>parseText\<close> trims the result, splits it at the runs
  of white space and drops the empty pieces: its tokens are exactly the maximal runs of
  non-white-space code units of the stripped text, in the order of the text.
\<close>

theorem parseText_maximal_runs:
  "removeCitations tx = replace_g m_www (replace_g m_http (replace_g m_citation tx))
   \<and> (m_citation s = Some rest \<longleftrightarrow>
        (\<exists>ds. ds \<noteq> [] \<and> list_all isDigit ds \<and> s = 0x5B # ds @ 0x5D # rest))
   \<and> (m_http s = Some rest \<longleftrightarrow>
        (\<exists>u. u \<noteq> [] \<and> list_all (\<lambda>c. \<not> isSpace c) u
           \<and> (s = js ''http://'' @ u @ rest \<or> s = js ''https://'' @ u @ rest)
           \<and> (rest = [] \<or> isSpace (hd rest))))
   \<and> (m_www s = Some rest \<longleftrightarrow>
        (\<exists>u. u \<noteq> [] \<and> list_all (\<lambda>c. \<not> isSpace c) u \<and> s = js ''www.'' @ u @ rest
           \<and> (rest = [] \<or> isSpace (hd rest))))
   \<and> parseText tx = filter (\<lambda>word. length word > 0) (split_ws (trim (removeCitations tx)))
   \<and> (tok \<in> set (parseText tx) \<longleftrightarrow> maximal_run (removeCitations tx) tok)
   \<and> concat (parseText tx) = filter (\<lambda>c. \<not> isSpace c) (removeCitations tx)"
proof -
  have c: "concat (filter (\<lambda>word. length word > 0) xs) = concat xs" for xs :: "jsstring list"
    by (induction xs) auto
  have m: "tok \<in> set (parseText tx) \<longleftrightarrow> maximal_run (removeCitations tx) tok"
    unfolding parseText_def by (simp only: split_ws_maximal_run maximal_run_trim)
  have f: "concat (parseText tx) = filter (\<lambda>c. \<not> isSpace c) (removeCitations tx)"
    unfolding parseText_def by (simp only: c concat_split_ws filter_trim)
  have r: "removeCitations tx = replace_g m_www (replace_g m_http (replace_g m_citation tx))"
    by (simp only: removeCitations_def)
  have p: "parseText tx = filter (\<lambda>word. length word > 0) (split_ws (trim (removeCitations tx)))"
    by (simp only: parseText_def)
  from r m_citation_iff [of s rest] m_http_iff [of s rest] m_www_iff [of s rest] p m f
  show ?thesis by (intro conjI)
qed

theorem parseText_maximal_runs_witness:
  "parseText sample_text = [js ''see'', js ''and'', js ''or'', js ''now.'']
   \<and> maximal_run (removeCitations sample_text) (js ''and'')
   \<and> m_citation (js ''[12] x'') = Some (js '' x'')
   \<and> m_http (js ''https://d.e or'') = Some (js '' or'')
   \<and> m_www (js ''www.f.g'') = Some []"
proof -
  have a: "js ''and'' \<in> set (parseText sample_text)" by (simp add: sample_tokens)
  have b: "m_citation (js ''[12] x'') = Some (js '' x'')
     \<and> m_http (js ''https://d.e or'') = Some (js '' or'') \<and> m_www (js ''www.f.g'') = Some []"
    by code_simp
  from parseText_maximal_runs [of sample_text _ _ "js ''and''"] a
  have "maximal_run (removeCitations sample_text) (js ''and'')" by blast
  with b show ?thesis by (simp add: sample_tokens)
qed

text \<open>
  Claim C4 at 59.6 seconds, which is what 298 remaining words at 300 words per minute
  give: \<open>formatTime\<close> rounds the seconds to 60 and leaves the minutes at 0, so the string
  is "0:60" and not "1:00".
\<close>

theorem formatTime_sixty_seconds:
  "formatTime (298 / 300 * 60) = js ''0:60''"
  by code_simp

text \<open>
  Claim C5. From a reachable state that is not playing and has the playback-complete
  hook assigned, \<open>play\<close> followed by \<open>k\<close> scheduled steps raises no error and leaves the
  index at the starting index plus \<open>k\<close>, capped at the length; the engine is still playing
  while fewer steps than words from the start have run, and stopped afterwards; the hook
  has been called once when the terminal position is reached and not at all before, and
  further time passing adds no call. In every reachable state a single operation calls
  the hook at most once, and only when it leaves the index at the terminal position with
  the engine stopped and nothing scheduled.
\<close>

theorem playback_steps_and_completion:
  assumes "reachable s"
  shows "(\<not> isPlaying s \<and> onComplete s \<longrightarrow>
           (\<exists>s'. uninterrupted t0 e es s = Inr s' \<and> words s' = words s
              \<and> currentIndex s' =
                  play_start s + min (int (length es)) (int (length (words s)) - play_start s)
              \<and> (isPlaying s' \<longleftrightarrow> int (length es) < int (length (words s)) - play_start s)
              \<and> completions s' = completions s +
                  (if int (length es) < int (length (words s)) - play_start s then 0 else 1)))
       \<and> (enabled a s \<longrightarrow>
           (\<exists>s'. perform a s = Inr s'
              \<and> (completions s' = completions s
                   \<or> (completions s' = completions s + 1
                        \<and> currentIndex s' = int (length (words s')) \<and> \<not> isPlaying s'
                        \<and> pending s' = []))))"
proof -
  have inv: "engine_inv s" by (rule reachable_inv [OF assms])
  have run: "\<exists>s'. uninterrupted t0 e es s = Inr s' \<and> words s' = words s
              \<and> currentIndex s' =
                  play_start s + min (int (length es)) (int (length (words s)) - play_start s)
              \<and> (isPlaying s' \<longleftrightarrow> int (length es) < int (length (words s)) - play_start s)
              \<and> completions s' = completions s +
                  (if int (length es) < int (length (words s)) - play_start s then 0 else 1)"
    if np: "\<not> isPlaying s" and oc: "onComplete s"
  proof -
    from play_effect [OF inv, of t0 e] np obtain s1 where s1: "play t0 e s = Inr s1"
      "engine_inv s1" "words s1 = words s" "currentIndex s1 = play_start s"
      "isPlaying s1 \<longleftrightarrow> words s \<noteq> []"
      "completions s1 = completions s + (if words s \<noteq> [] then 0 else if onComplete s then 1 else 0)"
      "onComplete s1 = onComplete s" by auto
    show ?thesis
    proof (cases "words s = []")
      case True
      then have "pending s1 = []" using s1(2,5) by (simp add: engine_inv_def)
      then have "playback es s1 = Inr s1" by (cases es) simp_all
      moreover have "play_start s = 0" using True inv by (auto simp: play_start_def engine_inv_def)
      ultimately show ?thesis using s1 True oc by (simp add: uninterrupted_def)
    next
      case False
      then have pl: "isPlaying s1" using s1(5) by simp
      from playback_run [OF s1(2) pl, of es] obtain s' where
        "playback es s1 = Inr s'" "words s' = words s1"
        "currentIndex s' = currentIndex s1 + min (int (length es)) (int (length (words s1)) - currentIndex s1)"
        "isPlaying s' \<longleftrightarrow> int (length es) < int (length (words s1)) - currentIndex s1"
        "completions s' = completions s1 +
          (if int (length es) < int (length (words s1)) - currentIndex s1 then 0
           else if onComplete s1 then 1 else 0)" by blast
      then show ?thesis using s1 False oc by (simp add: uninterrupted_def)
    qed
  qed
  have one: "\<exists>s'. perform a s = Inr s'
              \<and> (completions s' = completions s
                   \<or> (completions s' = completions s + 1
                        \<and> currentIndex s' = int (length (words s')) \<and> \<not> isPlaying s'
                        \<and> pending s' = []))"
    if en: "enabled a s"
  proof -
    from perform_effect [OF inv en] obtain s' where s': "perform a s = Inr s'" "engine_inv s'"
      "completions s' = completions s
          \<or> (completions s' = completions s + 1 \<and> currentIndex s' = int (length (words s'))
               \<and> \<not> isPlaying s')" by blast
    have "\<not> isPlaying s' \<Longrightarrow> pending s' = []" using s'(2) by (simp add: engine_inv_def)
    with s' show ?thesis by auto
  qed
  from run one show ?thesis by blast
qed

theorem playback_steps_and_completion_witness:
  "(\<exists>s'. uninterrupted 0 \<lparr>now = 0, rate = 600\<rparr> (replicate 3 \<lparr>now = 0, rate = 600\<rparr>) demo = Inr s'
       \<and> currentIndex s' = 3 \<and> isPlaying s' \<and> completions s' = 0)
   \<and> (\<exists>s'. uninterrupted 0 \<lparr>now = 0, rate = 600\<rparr> (replicate 6 \<lparr>now = 0, rate = 600\<rparr>) demo = Inr s'
       \<and> currentIndex s' = 6 \<and> \<not> isPlaying s' \<and> completions s' = 1)
   \<and> (\<exists>s'. uninterrupted 0 \<lparr>now = 0, rate = 600\<rparr> (replicate 9 \<lparr>now = 0, rate = 600\<rparr>) demo = Inr s'
       \<and> currentIndex s' = 6 \<and> \<not> isPlaying s' \<and> completions s' = 1)"
  using playback_steps_and_completion [OF reachable_demo, of 0 "\<lparr>now = 0, rate = 600\<rparr>"
      "replicate 3 \<lparr>now = 0, rate = 600\<rparr>" Pause]
    playback_steps_and_completion [OF reachable_demo, of 0 "\<lparr>now = 0, rate = 600\<rparr>"
      "replicate 6 \<lparr>now = 0, rate = 600\<rparr>" Pause]
    playback_steps_and_completion [OF reachable_demo, of 0 "\<lparr>now = 0, rate = 600\<rparr>"
      "replicate 9 \<lparr>now = 0, rate = 600\<rparr>" Pause]
  by (auto simp: demo_facts play_start_def)

text \<open>
  Claim C6. In every state the engine can reach from its initial object by \<open>init\<close>,
  \<open>play\<close>, scheduled steps, \<open>pause\<close>, \<open>stop\<close>, \<open>restart\<close>, \<open>goToEnd\<close>, \<open>displayWordAt\<close> and
  hook assignments, the index lies between 0 and the number of tokens; at the terminal
  position the engine is stopped with nothing scheduled; \<open>init\<close> sets the index to 0;
  every operation succeeds and keeps the range; and the index of a non-empty sequence
  arrives at the terminal position only through a scheduled step.
\<close>

theorem position_invariant:
  assumes "reachable s"
  shows "0 \<le> currentIndex s \<and> currentIndex s \<le> int (length (words s))
     \<and> (currentIndex s = int (length (words s)) \<longrightarrow> \<not> isPlaying s \<and> pending s = [])
     \<and> currentIndex (init tx s) = 0
     \<and> (enabled a s \<longrightarrow>
          (\<exists>s'. perform a s = Inr s' \<and> reachable s'
             \<and> 0 \<le> currentIndex s' \<and> currentIndex s' \<le> int (length (words s'))
             \<and> (currentIndex s' = int (length (words s')) \<and> words s' \<noteq> [] \<longrightarrow>
                  isTimerFired a \<or> (currentIndex s = int (length (words s)) \<and> words s' = words s))))"
proof -
  have inv: "engine_inv s" by (rule reachable_inv [OF assms])
  then have range: "0 \<le> currentIndex s \<and> currentIndex s \<le> int (length (words s))"
    and terminal: "currentIndex s = int (length (words s)) \<longrightarrow> \<not> isPlaying s \<and> pending s = []"
    by (auto simp: engine_inv_def split: if_splits)
  have nxt: "\<exists>s'. perform a s = Inr s' \<and> reachable s'
             \<and> 0 \<le> currentIndex s' \<and> currentIndex s' \<le> int (length (words s'))
             \<and> (currentIndex s' = int (length (words s')) \<and> words s' \<noteq> [] \<longrightarrow>
                  isTimerFired a \<or> (currentIndex s = int (length (words s)) \<and> words s' = words s))"
    if en: "enabled a s"
  proof -
    from perform_effect [OF inv en] obtain s' where s': "perform a s = Inr s'" "engine_inv s'"
      "currentIndex s' = int (length (words s')) \<and> words s' \<noteq> []
          \<longrightarrow> isTimerFired a \<or> (currentIndex s = int (length (words s)) \<and> words s' = words s)"
      by blast
    have "reachable s'" by (rule reachable.step [OF assms en s'(1)])
    moreover have "0 \<le> currentIndex s' \<and> currentIndex s' \<le> int (length (words s'))"
      using s'(2) by (simp add: engine_inv_def)
    ultimately show ?thesis using s' by blast
  qed
  from range terminal nxt show ?thesis by (simp add: init_effect)
qed

theorem position_invariant_witness:
  "currentIndex demo = 0 \<and> length (words demo) = 6
   \<and> (\<exists>s'. perform GoToEnd demo = Inr s' \<and> reachable s'
         \<and> 0 \<le> currentIndex s' \<and> currentIndex s' \<le> 6 \<and> currentIndex s' \<noteq> 6)"
proof -
  have w: "words (goToEnd demo) = words demo" by (simp add: goToEnd_effect)
  from position_invariant [OF reachable_demo, of _ GoToEnd] w show ?thesis
    by (auto simp: demo_facts demo_words isTimerFired_def)
qed

text \<open>
  Claim C7. \<open>displayWordAt\<close> with an index below 0 or not below the number of tokens
  returns the engine unchanged, every field of it: the index, the mode, the scheduled
  timeout and the record of hook calls; it raises no error.
\<close>

theorem seek_out_of_range:
  assumes "i < 0 \<or> i \<ge> int (length (words s))"
  shows "displayWordAt i wpm s = s \<and> perform (SeekTo i wpm) s = Inr s"
  using assms by (auto simp: displayWordAt_def)

theorem seek_out_of_range_witness:
  "length (words five) = 5 \<and> displayWordAt (- 1) 300 five = five
   \<and> displayWordAt 5 300 five = five"
  using seek_out_of_range [of "- 1" five 300] seek_out_of_range [of 5 five 300]
  by (simp add: five_words)

text \<open>
  Claim C8. A text that consists of white space only, the empty text included, has no
  tokens, and \<open>init\<close> with it raises no error and leaves the engine with no words, at
  index 0, not playing, with no timer and no hook called; from a reachable state nothing
  stays scheduled.
\<close>

theorem empty_text_init:
  assumes "list_all isSpace tx"
  shows "parseText tx = [] \<and> length (parseText tx) = 0
    \<and> perform (Init tx) s = Inr (init tx s)
    \<and> words (init tx s) = [] \<and> currentIndex (init tx s) = 0 \<and> \<not> isPlaying (init tx s)
    \<and> timer (init tx s) = None \<and> events (init tx s) = events s
    \<and> (reachable s \<longrightarrow> pending (init tx s) = [] \<and> reachable (init tx s))"
proof -
  have p: "parseText tx = []" by (rule parseText_all_space [OF assms])
  have "reachable (init tx s)" if "reachable s"
    using reachable.step [OF that, of "Init tx" "init tx s"] by simp
  moreover have "pending (init tx s) = []" if "reachable s"
    using init_inv [OF reachable_inv [OF that], of tx] by (simp add: engine_inv_def init_effect)
  ultimately show ?thesis using p by (simp add: init_effect)
qed

theorem empty_text_init_witness:
  "parseText (js ''  '') = [] \<and> parseText [] = []
   \<and> words (init (js ''  '') demo) = [] \<and> currentIndex (init (js ''  '') demo) = 0
   \<and> \<not> isPlaying (init (js ''  '') demo) \<and> pending (init (js ''  '') demo) = []"
proof -
  have a: "list_all isSpace (js ''  '')" "list_all isSpace []" by (simp_all add: js_def isSpace_def)
  from empty_text_init [OF a(1), of demo] empty_text_init [OF a(2), of demo] reachable_demo
  show ?thesis by simp
qed

text \<open>
  Claim C9, as the engine implements it. The three parts of \<open>splitWord\<close> concatenate to
  the token with every code unit outside \<open>[A-Za-z0-9_]\<close> removed; when nothing is left all
  three are empty, and otherwise the highlight is one code unit at the highlight offset.
  The underscore is kept: for the token "_" the highlight is "_", although no letter or
  digit is left of that token.
\<close>

theorem splitWord_partition:
  "before (splitWord w) @ highlight (splitWord w) @ after (splitWord w) = filter isWordChar w
   \<and> (filter isWordChar w = [] \<longrightarrow>
        before (splitWord w) = [] \<and> highlight (splitWord w) = [] \<and> after (splitWord w) = [])
   \<and> (filter isWordChar w \<noteq> [] \<longrightarrow>
        length (before (splitWord w)) = getORPIndex w \<and> length (highlight (splitWord w)) = 1)"
proof (cases "filter isWordChar w = []")
  case True
  then show ?thesis
    by (simp add: splitWord_def stripPunctuation_filter substring_def substring_from_def
        charAtOrEmpty_def)
next
  case False
  let ?c = "filter isWordChar w" and ?i = "getORPIndex w"
  have lt: "?i < length ?c" by (rule getORPIndex_in_range [OF False])
  have "take ?i ?c @ [?c ! ?i] @ drop (Suc ?i) ?c = ?c"
    using lt by (simp add: Cons_nth_drop_Suc)
  then show ?thesis using lt False
    by (simp add: splitWord_def stripPunctuation_filter substring_def substring_from_def
        charAtOrEmpty_def Let_def min_def)
qed

theorem splitWord_partition_witness:
  "splitWord (js ''(rea_ding),'') = \<lparr>before = js ''re'', highlight = js ''a'', after = js ''_ding''\<rparr>
   \<and> js ''re'' @ js ''a'' @ js ''_ding'' = filter isWordChar (js ''(rea_ding),'')
   \<and> splitWord (js ''...'') = \<lparr>before = [], highlight = [], after = []\<rparr>"
proof -
  have a: "splitWord (js ''(rea_ding),'') = \<lparr>before = js ''re'', highlight = js ''a'', after = js ''_ding''\<rparr>"
    by code_simp
  have b: "filter isWordChar (js ''...'') = []" by code_simp
  from splitWord_partition [of "js ''(rea_ding),''"] splitWord_partition [of "js ''...''"] a b
  show ?thesis by simp
qed

theorem splitWord_claim_counterexample:
  "filter isAlphanumeric_spec (js ''_'') = []
   \<and> highlight (splitWord (js ''_'')) = js ''_''
   \<and> before (splitWord (js ''_'')) @ highlight (splitWord (js ''_'')) @ after (splitWord (js ''_''))
       \<noteq> filter isAlphanumeric_spec (js ''_'')"
  by code_simp

text \<open>
  Claim C10. Every token of \<open>parseText\<close> is non-empty and has no white-space code
  unit; this holds for the earlier copy of the tokenizer as well.
\<close>

theorem parseText_tokens:
  "(tok \<in> set (parseText tx) \<longrightarrow> tok \<noteq> [] \<and> (\<forall>c\<in>set tok. \<not> isSpace c))
   \<and> (tok \<in> set (parseText_part0 tx) \<longrightarrow> tok \<noteq> [] \<and> (\<forall>c\<in>set tok. \<not> isSpace c))"
  by (auto simp: parseText_def parseText_part0_def dest: split_ws_no_space)

theorem parseText_tokens_witness:
  "js ''now.'' \<in> set (parseText sample_text) \<and> js ''now.'' \<noteq> []
   \<and> list_all (\<lambda>c. \<not> isSpace c) (js ''now.'')"
proof -
  have a: "js ''now.'' \<in> set (parseText sample_text)" by (simp add: sample_tokens)
  with parseText_tokens [of "js ''now.''" sample_text] show ?thesis
    by (simp add: list_all_iff)
qed

end
